theory Spec2Isabelle
  imports Main "HOL-Library.Char_ord" "HOL-Library.List_Lexorder"
begin

section \<open>RSA key material of \<open>adafruit_rsa/key.py\<close>\<close>

text \<open>
  Python integers are unbounded, so every number is an \<open>int\<close>; Python's \<open>//\<close> and
  \<open>%\<close> are floor division and its remainder, which is what \<open>div\<close> and \<open>mod\<close> are on
  \<open>int\<close> for a nonzero divisor. Exceptions are values of the type \<open>error\<close>, and a function
  that can raise returns \<open>error + 'a\<close> with \<open>Inl\<close> for the exception.
\<close>

subsection \<open>Exceptions\<close>

text \<open>
  The \<open>ValueError\<close>s raised in \<open>key.py\<close>, each with the arguments of its format string:
  \<^item> \<open>KeyTooSmall\<close>: \<^verbatim>\<open>"Key too small"\<close>
  \<^item> \<open>PoolSize poolsize\<close>: \<^verbatim>\<open>"Pool size (%i) should be >= 1"\<close>
  \<^item> \<open>NotMultInv e d phi_n\<close>: \<^verbatim>\<open>"e (%d) and d (%d) are not mult. inv. modulo phi_n (%d)"\<close>
  \<^item> \<open>BadVersion v\<close>: \<^verbatim>\<open>"Unable to read this file, version %s != 0"\<close>
  \<^item> \<open>UnsupportedFormat file_format formats\<close>: \<^verbatim>\<open>"Unsupported format: %r, try one of %s"\<close>
  \<^item> \<open>UnpackMismatch\<close>: the interpreter's own error when a tuple assignment gets the
    wrong number of values.
\<close>

datatype value_error =
    KeyTooSmall
  | PoolSize int
  | NotMultInv int int int
  | BadVersion int
  | UnsupportedFormat string string
  | UnpackMismatch

text \<open>
  \<open>NotRelativePrimeError a b d ctx\<close> carries the two numbers and their divider; \<open>ctx\<close> is
  \<open>True\<close> when the error was raised again by \<open>calculate_keys_custom_exponent\<close> with its
  own message \<^verbatim>\<open>"e (%d) and phi_n (%d) are not relatively prime (divider=%i)"\<close>.
  \<open>ModulusNotPositive\<close> is the failure of \<open>mod_pow\<close> in section 4.1 of the spec, which
  names no exception for it.
\<close>

datatype error =
    ValueError value_error
  | NotRelativePrimeError int int int bool
  | ZeroDivisionError
  | NotImplementedError string
  | IndexError
  | TypeError
  | ModulusNotPositive

text \<open>Modelled from the spec: the class hierarchy of \<open>NotRelativePrimeError\<close> is declared in
  \<open>adafruit_rsa/common.py\<close>, which is not among the sources. Section 4.3 of the spec has
  \<open>generate_key_material\<close> retry "on coprimality failure", so \<open>except ValueError\<close> in
  \<open>gen_keys\<close> catches it.
\<close>

fun is_ValueError :: "error \<Rightarrow> bool" where
  "is_ValueError (ValueError _) = True"
| "is_ValueError (NotRelativePrimeError _ _ _ _) = True"
| "is_ValueError _ = False"

definition py_mod :: "int \<Rightarrow> int \<Rightarrow> error + int" where
  \<comment> \<open>Python's \<open>a % b\<close> on integers.\<close>
  "py_mod a b = (if b = 0 then Inl ZeroDivisionError else Inr (a mod b))"

subsection \<open>Arithmetic helpers of \<open>adafruit_rsa.core\<close> and \<open>adafruit_rsa.common\<close>\<close>

text \<open>Modelled from the spec: \<open>adafruit_rsa.core.fast_pow\<close> is not among the sources. Section
  4.1: \<open>mod_pow(base, exponent, modulus)\<close> "fails if \<open>modulus <= 0\<close>; returns
  \<open>base^exponent mod modulus\<close>". The spec says nothing about a negative exponent; here it
  counts as the exponent 0.
\<close>

definition fast_pow :: "int \<Rightarrow> int \<Rightarrow> int \<Rightarrow> error + int" where
  "fast_pow x e m = (if m \<le> 0 then Inl ModulusNotPositive else Inr (x ^ nat e mod m))"

text \<open>Modelled from the spec: \<open>adafruit_rsa.core.decrypt_int\<close> is not among the sources. Section
  4.4: \<open>blinded_decrypt\<close> "decrypts with raw \<open>mod_pow(blinded, d, n)\<close>".
\<close>

definition decrypt_int :: "int \<Rightarrow> int \<Rightarrow> int \<Rightarrow> error + int" where
  "decrypt_int cyphertext dkey n = fast_pow cyphertext dkey n"

text \<open>Modelled from the spec: the loop of the "extended Euclidean algorithm" that section
  4.1 names for \<open>mod_inverse\<close>; \<open>adafruit_rsa.common\<close> is not among the sources. For the
  two inputs \<open>a0\<close> and \<open>b0\<close> the loop keeps \<open>a = lx * a0 + ly * b0\<close> and
  \<open>b = x * a0 + y * b0\<close>, and it ends when \<open>b\<close> is 0.
\<close>

function extended_gcd_loop :: "int \<Rightarrow> int \<Rightarrow> int \<Rightarrow> int \<Rightarrow> int \<Rightarrow> int \<Rightarrow> int \<times> int \<times> int" where
  "extended_gcd_loop a b x lx y ly =
     (if b = 0 then (a, lx, ly)
      else extended_gcd_loop b (a mod b) (lx - (a div b) * x) x (ly - (a div b) * y) y)"
  by pat_completeness auto
termination
  by (relation "measure (\<lambda>(a, b, x, lx, y, ly). nat \<bar>b\<bar>)") (auto simp: abs_mod_less)

text \<open>Modelled from the spec: the "extended Euclidean algorithm" of section 4.1 on the
  inputs \<open>a\<close> and \<open>b\<close>; the result \<open>(g, lx, ly)\<close> has \<open>g = lx * a + ly * b\<close>.
\<close>

definition extended_gcd :: "int \<Rightarrow> int \<Rightarrow> int \<times> int \<times> int" where
  "extended_gcd a b = extended_gcd_loop a b 0 1 1 0"

text \<open>Modelled from the spec: \<open>adafruit_rsa.common.inverse\<close> is not among the sources. Section
  4.1: \<open>mod_inverse(a, m)\<close> is the "extended Euclidean algorithm; fails with
  \<open>NotInvertibleError\<close> carrying the GCD divisor when \<open>gcd(a, m) != 1\<close>". The inverse is
  the coefficient of \<open>x\<close> that the algorithm finds, reduced into the range of the modulus.
\<close>

definition inverse_mod :: "int \<Rightarrow> int \<Rightarrow> error + int" where
  "inverse_mod x n =
     (if gcd x n \<noteq> 1 then Inl (NotRelativePrimeError x n (gcd x n) False)
      else case extended_gcd x n of (divider, lx, _) \<Rightarrow> Inr (lx mod n))"

text \<open>Modelled from the spec: \<open>adafruit_rsa.common.bit_size\<close> is not among the sources. Section
  4.1: \<open>bit_length(x)\<close> is the "number of bits in the binary representation of a
  non-negative integer". A number below 1 has no bits here.
\<close>

function bit_size :: "int \<Rightarrow> int" where
  "bit_size num = (if num \<le> 0 then 0 else 1 + bit_size (num div 2))"
  by pat_completeness auto
termination
  by (relation "measure nat") auto

subsection \<open>Key objects\<close>

text \<open>
  The attributes \<open>n\<close>, \<open>e\<close>, \<open>d\<close>, \<open>p\<close> and \<open>q\<close> of the key classes are the fields
  \<open>key_n\<close>, \<open>key_e\<close>, \<open>key_d\<close>, \<open>key_p\<close> and \<open>key_q\<close>, which leaves the single letters
  to the variables of the functions. \<open>PublicKey\<close> adds no attribute to
  \<open>AbstractKey\<close>; \<open>PrivateKey\<close> adds six.
\<close>

record AbstractKey =
  key_n :: int
  key_e :: int

type_synonym PublicKey = AbstractKey

record PrivateKey = AbstractKey +
  key_d :: int
  key_p :: int
  key_q :: int
  exp1 :: int
  exp2 :: int
  coef :: int

definition PublicKey_init :: "int \<Rightarrow> int \<Rightarrow> PublicKey" where
  "PublicKey_init n e = \<lparr>key_n = n, key_e = e\<rparr>"

text \<open>
  \<open>blind\<close> and \<open>unblind\<close> are methods of \<open>AbstractKey\<close>, so they take any key.
\<close>

definition blind :: "'a AbstractKey_scheme \<Rightarrow> int \<Rightarrow> int \<Rightarrow> error + int" where
  "blind key message r =
     (case fast_pow r (key_e key) (key_n key) of
        Inl err \<Rightarrow> Inl err
      | Inr pw \<Rightarrow> py_mod (message * pw) (key_n key))"

definition unblind :: "'a AbstractKey_scheme \<Rightarrow> int \<Rightarrow> int \<Rightarrow> error + int" where
  "unblind key blinded r =
     (case inverse_mod r (key_n key) of
        Inl err \<Rightarrow> Inl err
      | Inr iv \<Rightarrow> py_mod (iv * blinded) (key_n key))"

text \<open>
  \<open>PrivateKey.__init__\<close>: the two exponents and the coefficient are computed from
  \<open>d\<close>, \<open>p\<close> and \<open>q\<close>; \<open>d % (p - 1)\<close> and \<open>d % (q - 1)\<close> raise on a zero divisor and
  \<open>inverse(q, p)\<close> raises when \<open>q\<close> has no inverse modulo \<open>p\<close>.
\<close>

definition PrivateKey_init :: "int \<Rightarrow> int \<Rightarrow> int \<Rightarrow> int \<Rightarrow> int \<Rightarrow> error + PrivateKey" where
  "PrivateKey_init n e d p q =
     (case py_mod d (p - 1) of
        Inl err \<Rightarrow> Inl err
      | Inr x1 \<Rightarrow>
        (case py_mod d (q - 1) of
           Inl err \<Rightarrow> Inl err
         | Inr x2 \<Rightarrow>
           (case inverse_mod q p of
              Inl err \<Rightarrow> Inl err
            | Inr c \<Rightarrow>
                Inr \<lparr>key_n = n, key_e = e, key_d = d, key_p = p, key_q = q,
                     exp1 = x1, exp2 = x2, coef = c\<rparr>)))"

text \<open>\<open>PrivateKey.__getstate__\<close> and \<open>PrivateKey.__setstate__\<close>: the key as a tuple.\<close>

type_synonym private_state = "int \<times> int \<times> int \<times> int \<times> int \<times> int \<times> int \<times> int"

definition PrivateKey_getstate :: "PrivateKey \<Rightarrow> private_state" where
  "PrivateKey_getstate key =
     (key_n key, key_e key, key_d key, key_p key, key_q key, exp1 key, exp2 key, coef key)"

fun PrivateKey_setstate :: "private_state \<Rightarrow> PrivateKey" where
  "PrivateKey_setstate (n, e, d, p, q, x1, x2, c) =
     \<lparr>key_n = n, key_e = e, key_d = d, key_p = p, key_q = q, exp1 = x1, exp2 = x2, coef = c\<rparr>"

text \<open>
  \<open>PrivateKey.blinded_decrypt\<close>. \<open>adafruit_rsa.randnum.randint\<close> is the randomness source:
  a parameter that takes the largest value allowed and the state of the source, and
  returns the number drawn and the new state.
\<close>

definition blinded_decrypt ::
  "(int \<Rightarrow> 's \<Rightarrow> int \<times> 's) \<Rightarrow> PrivateKey \<Rightarrow> int \<Rightarrow> 's \<Rightarrow> (error + int) \<times> 's" where
  "blinded_decrypt randint key encrypted s =
     (case randint (key_n key - 1) s of
        (blind_r, s') \<Rightarrow>
          ((case blind key encrypted blind_r of
              Inl err \<Rightarrow> Inl err
            | Inr blinded \<Rightarrow>
              (case decrypt_int blinded (key_d key) (key_n key) of
                 Inl err \<Rightarrow> Inl err
               | Inr decrypted \<Rightarrow> unblind key decrypted blind_r)), s'))"

subsection \<open>PKCS#1 loading and saving\<close>

text \<open>
  \<open>PrivateKey._load_pkcs1_der\<close>. The DER decoder belongs to \<open>pyasn1\<close>: it is the parameter
  \<open>decode\<close>, from the bytes of the file to the sequence of integers in it. \<open>priv[0]\<close>
  raises on an empty sequence, \<open>cls(*as_ints)\<close> raises unless the slice \<open>priv[1:6]\<close> has
  five members and the tuple assignment from \<open>priv[6:9]\<close> raises unless it has three.
  The result is the key and the messages given to \<open>log.debug\<close>.
\<close>

definition malformed_keyfile :: string where
  "malformed_keyfile =
     ''You have providied a malformed keyfile. Either the exponentsor the coefficient are incorrect.''"

definition PrivateKey_load_pkcs1_der ::
  "('b \<Rightarrow> error + int list) \<Rightarrow> 'b \<Rightarrow> error + (PrivateKey \<times> string list)" where
  "PrivateKey_load_pkcs1_der decode keyfile =
     (case decode keyfile of
        Inl err \<Rightarrow> Inl err
      | Inr priv \<Rightarrow>
        (case priv of
           [] \<Rightarrow> Inl IndexError
         | version # _ \<Rightarrow>
           if version \<noteq> 0 then Inl (ValueError (BadVersion version))
           else
             (case take 5 (drop 1 priv) of
                [n, e, d, p, q] \<Rightarrow>
                  (case PrivateKey_init n e d p q of
                     Inl err \<Rightarrow> Inl err
                   | Inr key \<Rightarrow>
                     (case take 3 (drop 6 priv) of
                        [x1, x2, c] \<Rightarrow>
                          Inr (key,
                               if (exp1 key, exp2 key, coef key) \<noteq> (x1, x2, c)
                               then [malformed_keyfile] else [])
                      | _ \<Rightarrow> Inl (ValueError UnpackMismatch)))
              | _ \<Rightarrow> Inl TypeError)))"

text \<open>
  \<open>AbstractKey._assert_format_exists\<close>: \<open>methods\<close> is the dictionary from the name of a
  format to its method, as the list of its items.
\<close>

fun join :: "string \<Rightarrow> string list \<Rightarrow> string" where
  "join sep [] = []"
| "join sep [x] = x"
| "join sep (x # y # ys) = x @ sep @ join sep (y # ys)"

definition assert_format_exists :: "string \<Rightarrow> (string \<times> 'm) list \<Rightarrow> error + 'm" where
  "assert_format_exists file_format methods =
     (case map_of methods file_format of
        Some method \<Rightarrow> Inr method
      | None \<Rightarrow>
          Inl (ValueError (UnsupportedFormat file_format
                 (join '', '' (sort (map fst methods))))))"

text \<open>
  \<open>AbstractKey.save_pkcs1\<close>: \<open>pem_method\<close> and \<open>der_method\<close> are the methods
  \<open>_save_pkcs1_pem\<close> and \<open>_save_pkcs1_der\<close> of the key's class, which a subclass implements.
\<close>

definition save_pkcs1 :: "('k \<Rightarrow> error + 'b) \<Rightarrow> ('k \<Rightarrow> error + 'b) \<Rightarrow> 'k \<Rightarrow> string \<Rightarrow> error + 'b" where
  "save_pkcs1 pem_method der_method key format =
     (case assert_format_exists format [(''PEM'', pem_method), (''DER'', der_method)] of
        Inl err \<Rightarrow> Inl err
      | Inr method \<Rightarrow> method key)"

text \<open>
  \<open>AbstractKey.load_pkcs1\<close>: the body raises at once; the table of the methods
  \<open>_load_pkcs1_pem\<close> and \<open>_load_pkcs1_der\<close> (here \<open>pem_method\<close> and \<open>der_method\<close>) and the
  call of \<open>_assert_format_exists\<close> are commented out in the source.
\<close>

definition load_pkcs1 ::
  "('b \<Rightarrow> error + 'k) \<Rightarrow> ('b \<Rightarrow> error + 'k) \<Rightarrow> 'b \<Rightarrow> string \<Rightarrow> error + 'k" where
  "load_pkcs1 pem_method der_method keyfile format =
     Inl (NotImplementedError ''Loading PEM Files not supported by this CircuitPython library.'')"

subsection \<open>Key generation\<close>

text \<open>
  \<open>getprime_func\<close> draws a prime of the number of bits asked for: a parameter that takes
  the number of bits and the state of the randomness source, and returns the number
  drawn and the new state. \<open>is_acceptable\<close> is the local function of \<open>find_p_q\<close>, with
  the variables \<open>accurate\<close> and \<open>total_bits\<close> it reads from there.
\<close>

definition is_acceptable :: "bool \<Rightarrow> int \<Rightarrow> int \<Rightarrow> int \<Rightarrow> bool" where
  "is_acceptable accurate total_bits p q =
     (if p = q then False
      else if \<not> accurate then True
      else total_bits = bit_size (p * q))"

text \<open>
  The \<open>while\<close> loop of \<open>find_p_q\<close> has no bound: it is a partial function, and \<open>None\<close> is
  the loop that never ends.
\<close>

partial_function (option) find_p_q_loop ::
  "(int \<Rightarrow> 's \<Rightarrow> int \<times> 's) \<Rightarrow> bool \<Rightarrow> int \<Rightarrow> int \<Rightarrow> int \<Rightarrow> int \<Rightarrow> int \<Rightarrow> bool \<Rightarrow> 's
     \<Rightarrow> ((int \<times> int) \<times> 's) option" where
  "find_p_q_loop getprime_func accurate total_bits pbits qbits p q change_p s =
     (if is_acceptable accurate total_bits p q then Some ((p, q), s)
      else if change_p then
        (case getprime_func pbits s of
           (p', s') \<Rightarrow>
             find_p_q_loop getprime_func accurate total_bits pbits qbits p' q (\<not> change_p) s')
      else
        (case getprime_func qbits s of
           (q', s') \<Rightarrow>
             find_p_q_loop getprime_func accurate total_bits pbits qbits p q' (\<not> change_p) s'))"

definition find_p_q ::
  "int \<Rightarrow> (int \<Rightarrow> 's \<Rightarrow> int \<times> 's) \<Rightarrow> bool \<Rightarrow> 's \<Rightarrow> ((int \<times> int) \<times> 's) option" where
  "find_p_q nbits getprime_func accurate s =
     (let total_bits = nbits * 2;
          shift = nbits div 16;
          pbits = nbits + shift;
          qbits = nbits - shift
      in case getprime_func pbits s of
           (p, s1) \<Rightarrow>
             (case getprime_func qbits s1 of
                (q, s2) \<Rightarrow>
                  (case find_p_q_loop getprime_func accurate total_bits pbits qbits
                          p q False s2 of
                     None \<Rightarrow> None
                   | Some ((p', q'), s3) \<Rightarrow> Some ((max p' q', min p' q'), s3))))"

definition calculate_keys_custom_exponent :: "int \<Rightarrow> int \<Rightarrow> int \<Rightarrow> error + (int \<times> int)" where
  "calculate_keys_custom_exponent p q exponent =
     (let phi_n = (p - 1) * (q - 1)
      in case inverse_mod exponent phi_n of
           Inl (NotRelativePrimeError a b dv ctx) \<Rightarrow>
             Inl (NotRelativePrimeError exponent phi_n dv True)
         | Inl err \<Rightarrow> Inl err
         | Inr d \<Rightarrow>
           (case py_mod (exponent * d) phi_n of
              Inl err \<Rightarrow> Inl err
            | Inr r \<Rightarrow>
                if r \<noteq> 1 then Inl (ValueError (NotMultInv exponent d phi_n))
                else Inr (exponent, d)))"

definition DEFAULT_EXPONENT :: int where
  "DEFAULT_EXPONENT = 65537"

definition calculate_keys :: "int \<Rightarrow> int \<Rightarrow> error + (int \<times> int)" where
  "calculate_keys p q = calculate_keys_custom_exponent p q DEFAULT_EXPONENT"

text \<open>
  \<open>gen_keys\<close>: the loop draws a new pair until \<open>calculate_keys_custom_exponent\<close> raises
  no \<open>ValueError\<close>; any other exception leaves the loop and the function.
\<close>

partial_function (option) gen_keys ::
  "int \<Rightarrow> (int \<Rightarrow> 's \<Rightarrow> int \<times> 's) \<Rightarrow> bool \<Rightarrow> int \<Rightarrow> 's
     \<Rightarrow> ((error + (int \<times> int \<times> int \<times> int)) \<times> 's) option" where
  "gen_keys nbits getprime_func accurate exponent s =
     (case find_p_q (nbits div 2) getprime_func accurate s of
        None \<Rightarrow> None
      | Some ((p, q), s') \<Rightarrow>
        (case calculate_keys_custom_exponent p q exponent of
           Inr (e, d) \<Rightarrow> Some (Inr (p, q, e, d), s')
         | Inl err \<Rightarrow>
             if is_ValueError err then gen_keys nbits getprime_func accurate exponent s'
             else Some (Inl err, s')))"

text \<open>
  \<open>newkeys\<close>. \<open>getprime_func\<close> is \<open>adafruit_rsa.prime.getprime\<close> in the source; the
  argument \<open>log_level\<close> only sets the level of the logger and is left out.
\<close>

definition newkeys ::
  "(int \<Rightarrow> 's \<Rightarrow> int \<times> 's) \<Rightarrow> int \<Rightarrow> bool \<Rightarrow> int \<Rightarrow> int \<Rightarrow> 's
     \<Rightarrow> ((error + (PublicKey \<times> PrivateKey)) \<times> 's) option" where
  "newkeys getprime_func nbits accurate poolsize exponent s =
     (if nbits < 16 then Some (Inl (ValueError KeyTooSmall), s)
      else if poolsize < 1 then Some (Inl (ValueError (PoolSize poolsize)), s)
      else
        (case gen_keys nbits getprime_func accurate exponent s of
           None \<Rightarrow> None
         | Some (Inl err, s') \<Rightarrow> Some (Inl err, s')
         | Some (Inr (p, q, e, d), s') \<Rightarrow>
             (let n = p * q
              in case PrivateKey_init n e d p q of
                   Inl err \<Rightarrow> Some (Inl err, s')
                 | Inr priv \<Rightarrow> Some (Inr (PublicKey_init n e, priv), s'))))"

subsection \<open>Primes\<close>

text \<open>
  The spec's data model calls \<open>p\<close> and \<open>q\<close> "the two secret primes": a prime is a number
  above 1 that no number from 2 up to itself divides.
\<close>

definition prime_int :: "int \<Rightarrow> bool" where
  "prime_int p = (1 < p \<and> (\<forall>m\<in>{2..<p}. \<not> m dvd p))"

subsection \<open>A randomness source for examples\<close>

text \<open>
  \<open>replay\<close> is a randomness source whose state is the list of the numbers it will
  draw: each call hands out the head of the list, whatever the size asked for.
\<close>

definition replay :: "int \<Rightarrow> int list \<Rightarrow> int \<times> int list" where
  "replay bits s = (case s of [] \<Rightarrow> (0, []) | x # xs \<Rightarrow> (x, xs))"

text \<open>
  The recursive equations of the loops are used where a proof says so, and evaluate
  the loops on concrete arguments.
\<close>

declare extended_gcd_loop.simps [simp del]
declare bit_size.simps [simp del]
declare find_p_q_loop.simps [code]
declare gen_keys.simps [code]

section \<open>The extended Euclidean algorithm\<close>

lemma extended_gcd_loop_zero:
  "extended_gcd_loop a 0 x lx y ly = (a, lx, ly)"
  by (simp add: extended_gcd_loop.simps)

lemma extended_gcd_loop_step:
  "b \<noteq> 0 \<Longrightarrow> extended_gcd_loop a b x lx y ly =
     extended_gcd_loop b (a mod b) (lx - (a div b) * x) x (ly - (a div b) * y) y"
  by (subst extended_gcd_loop.simps) simp

lemma extended_gcd_loop_bezout:
  "a = lx * a0 + ly * b0 \<Longrightarrow> b = x * a0 + y * b0 \<Longrightarrow>
   extended_gcd_loop a b x lx y ly = (g, u, v) \<Longrightarrow> g = u * a0 + v * b0"
proof (induction a b x lx y ly rule: extended_gcd_loop.induct)
  case (1 a b x lx y ly)
  show ?case
  proof (cases "b = 0")
    case True
    with "1.prems" show ?thesis
      by (auto simp: extended_gcd_loop_zero)
  next
    case False
    have "a mod b = a - (a div b) * b"
      by (simp add: minus_div_mult_eq_mod)
    then have "a mod b = (lx - a div b * x) * a0 + (ly - a div b * y) * b0"
      using "1.prems"(1,2) by (simp add: algebra_simps)
    moreover have "extended_gcd_loop b (a mod b) (lx - a div b * x) x (ly - a div b * y) y = (g, u, v)"
      using "1.prems"(3) False by (simp add: extended_gcd_loop_step)
    ultimately show ?thesis
      using "1.IH"[OF False "1.prems"(2)] by blast
  qed
qed

lemma extended_gcd_loop_gcd:
  "0 \<le> b \<Longrightarrow> (b = 0 \<longrightarrow> 0 \<le> a) \<Longrightarrow>
   extended_gcd_loop a b x lx y ly = (g, u, v) \<Longrightarrow> g = gcd a b"
proof (induction a b x lx y ly rule: extended_gcd_loop.induct)
  case (1 a b x lx y ly)
  show ?case
  proof (cases "b = 0")
    case True
    with "1.prems" show ?thesis
      by (simp add: extended_gcd_loop_zero)
  next
    case False
    with "1.prems"(1) have pos: "0 < b" by simp
    have "extended_gcd_loop b (a mod b) (lx - a div b * x) x (ly - a div b * y) y = (g, u, v)"
      using "1.prems"(3) False by (simp add: extended_gcd_loop_step)
    moreover have "0 \<le> a mod b" using pos by simp
    moreover have "a mod b = 0 \<longrightarrow> 0 \<le> b" using pos by simp
    ultimately have "g = gcd b (a mod b)"
      using "1.IH"[OF False] by blast
    then show ?thesis
      by (simp add: gcd.commute gcd_red_int[symmetric])
  qed
qed

lemma inverse_mod_correct:
  assumes "1 < n" and "gcd x n = 1"
  shows "\<exists>i. inverse_mod x n = Inr i \<and> 0 \<le> i \<and> i < n \<and> (i * x) mod n = 1"
proof -
  obtain g u v where eg: "extended_gcd x n = (g, u, v)"
    by (metis prod_cases3)
  then have loop: "extended_gcd_loop x n 0 1 1 0 = (g, u, v)"
    by (simp add: extended_gcd_def)
  have "g = gcd x n"
    using extended_gcd_loop_gcd[OF _ _ loop] assms(1) by simp
  then have g1: "g = 1" using assms(2) by simp
  have "g = u * x + v * n"
    using extended_gcd_loop_bezout[OF _ _ loop, of x n] by simp
  then have "u * x = 1 - v * n" using g1 by simp
  then have "(u * x) mod n = (1 - v * n) mod n" by simp
  also have "\<dots> = 1 mod n"
    by (metis diff_conv_add_uminus mod_mult_self1 mult_minus_left)
  also have "\<dots> = 1" using assms(1) by simp
  finally have "(u * x) mod n = 1" .
  then have "((u mod n) * x) mod n = 1"
    by (simp add: mod_mult_left_eq)
  moreover have "inverse_mod x n = Inr (u mod n)"
    using assms(2) eg by (simp add: inverse_mod_def)
  moreover have "0 \<le> u mod n" "u mod n < n" using assms(1) by simp_all
  ultimately show ?thesis by blast
qed

section \<open>Fermat's little theorem and the exponents of a key\<close>

lemma prime_int_nat_divisor:
  assumes "prime_int p" and "(m::nat) dvd nat p"
  shows "m = 1 \<or> m = nat p"
proof -
  from assms(1) have p1: "1 < p" and nd: "\<And>k. 2 \<le> k \<Longrightarrow> k < p \<Longrightarrow> \<not> k dvd p"
    by (auto simp: prime_int_def)
  have "m \<noteq> 0" using assms(2) p1 by (cases "m = 0") auto
  have le: "m \<le> nat p" using assms(2) p1 by (intro dvd_imp_le) auto
  have "int m dvd p"
    using assms(2) p1 by (metis int_dvd_int_iff int_nat_eq less_imp_le order_trans zero_le_one)
  with nd[of "int m"] have "\<not> (2 \<le> int m \<and> int m < p)" by blast
  with le \<open>m \<noteq> 0\<close> show ?thesis by linarith
qed

lemma prime_int_coprime_nat:
  assumes "prime_int p" and "0 < k" and "k < nat p"
  shows "coprime (nat p) k"
proof (rule coprimeI)
  fix c assume c: "c dvd nat p" "c dvd k"
  from prime_int_nat_divisor[OF assms(1) c(1)] have "c = 1 \<or> c = nat p" .
  moreover have "c \<le> k" using c(2) assms(2) by (simp add: dvd_imp_le)
  ultimately show "is_unit c" using assms(3) by auto
qed

lemma prime_int_dvd_choose:
  assumes "prime_int p" and "0 < k" and "k < nat p"
  shows "nat p dvd (nat p choose k)"
proof -
  have "k * (nat p choose k) = nat p * (nat p - 1 choose (k - 1))"
    using assms(2) by (rule times_binomial_minus1_eq)
  then have "nat p dvd k * (nat p choose k)" by simp
  then show ?thesis
    using prime_int_coprime_nat[OF assms] by (simp add: coprime_dvd_mult_right_iff)
qed

lemma fermat_nat:
  assumes "prime_int p"
  shows "(a::nat) ^ nat p mod nat p = a mod nat p"
proof (induction a)
  case 0
  from assms have "0 < nat p" by (simp add: prime_int_def)
  then show ?case by (simp add: power_0_left)
next
  case (Suc a)
  from assms have "0 < nat p" by (simp add: prime_int_def)
  then obtain P' where P': "nat p = Suc P'" by (cases "nat p") auto
  let ?f = "\<lambda>k. (nat p choose k) * a ^ k"
  have "(Suc a) ^ nat p = (a + 1) ^ nat p" by simp
  also have "\<dots> = (\<Sum>k\<le>nat p. ?f k)"
    using binomial[of a 1 "nat p"] by simp
  also have "\<dots> = (\<Sum>k\<le>P'. ?f k) + ?f (nat p)"
    by (simp add: P')
  also have "(\<Sum>k\<le>P'. ?f k) = ?f 0 + (\<Sum>k\<in>{1..P'}. ?f k)"
    by (simp add: atMost_atLeast0 sum.atLeast_Suc_atMost)
  finally have eq: "(Suc a) ^ nat p = 1 + (\<Sum>k\<in>{1..P'}. ?f k) + a ^ nat p"
    by simp
  have "nat p dvd (\<Sum>k\<in>{1..P'}. ?f k)"
  proof (rule dvd_sum)
    fix k assume "k \<in> {1..P'}"
    then have "0 < k" "k < nat p" using P' by auto
    from prime_int_dvd_choose[OF assms this] show "nat p dvd ?f k" by simp
  qed
  then obtain M where M: "(\<Sum>k\<in>{1..P'}. ?f k) = nat p * M" by (auto simp: dvd_def)
  have "(Suc a) ^ nat p mod nat p = (1 + a ^ nat p + nat p * M) mod nat p"
    using eq M by (simp add: add.commute add.left_commute)
  also have "\<dots> = (1 + a ^ nat p) mod nat p" by simp
  also have "\<dots> = (1 + a ^ nat p mod nat p) mod nat p" by (simp add: mod_simps)
  also have "\<dots> = (1 + a) mod nat p" using Suc.IH by (simp add: mod_simps)
  finally show ?case by simp
qed

lemma fermat_int:
  assumes "prime_int p"
  shows "(x::int) ^ nat p mod p = x mod p"
proof -
  from assms have pos: "0 < p" by (simp add: prime_int_def)
  define a where "a = nat (x mod p)"
  have a: "int a = x mod p" using pos by (simp add: a_def)
  have "x ^ nat p mod p = (x mod p) ^ nat p mod p" by (simp add: power_mod)
  also have "\<dots> = int (a ^ nat p) mod int (nat p)" using a pos by simp
  also have "\<dots> = int (a ^ nat p mod nat p)" by (simp add: zmod_int)
  also have "\<dots> = int (a mod nat p)" by (simp add: fermat_nat[OF assms])
  also have "\<dots> = int a mod p" using pos by (simp add: zmod_int)
  also have "\<dots> = x mod p" using a by simp
  finally show ?thesis .
qed

lemma fermat_cycle:
  assumes "prime_int p"
  shows "(x::int) ^ (1 + k * (nat p - 1)) mod p = x mod p"
proof (induction k)
  case 0
  show ?case by simp
next
  case (Suc k)
  define m where "m = nat p - 1"
  from assms have "1 < p" by (simp add: prime_int_def)
  then have pm: "nat p = Suc m" by (simp add: m_def)
  have e1: "x ^ (1 + Suc k * m) = x ^ (1 + k * m) * x ^ m"
    by (simp add: power_add)
  have "x ^ (1 + Suc k * m) mod p = (x ^ (1 + k * m) * x ^ m) mod p"
    by (simp only: e1)
  also have "\<dots> = (x ^ (1 + k * m) mod p) * x ^ m mod p"
    by (simp only: mod_mult_left_eq)
  also have "\<dots> = (x mod p) * x ^ m mod p" using Suc.IH by (simp only: m_def)
  also have "\<dots> = x * x ^ m mod p" by (simp only: mod_mult_left_eq)
  also have "x * x ^ m = x ^ nat p" by (simp add: pm)
  also have "x ^ nat p mod p = x mod p" by (rule fermat_int[OF assms])
  finally show ?case by (simp add: m_def)
qed

lemma prime_int_coprime:
  assumes "prime_int p" and "prime_int q" and "p \<noteq> q"
  shows "coprime p q"
proof (rule coprimeI)
  fix c assume c: "c dvd p" "c dvd q"
  from assms have p1: "1 < p" and q1: "1 < q" by (simp_all add: prime_int_def)
  have cp: "nat \<bar>c\<bar> dvd nat p" using c(1) p1 by simp
  have cq: "nat \<bar>c\<bar> dvd nat q" using c(2) q1 by simp
  from prime_int_nat_divisor[OF assms(1) cp] prime_int_nat_divisor[OF assms(2) cq]
  have "nat \<bar>c\<bar> = 1 \<or> (nat \<bar>c\<bar> = nat p \<and> nat \<bar>c\<bar> = nat q)" by auto
  moreover have "nat p \<noteq> nat q" using p1 q1 assms(3) by simp
  ultimately have "\<bar>c\<bar> = 1" by auto
  then show "is_unit c" by simp
qed

lemma rsa_cycle:
  assumes pp: "prime_int p" and pq: "prime_int q" and ne: "p \<noteq> q"
    and e0: "0 \<le> e" and d0: "0 \<le> d"
    and ed: "(e * d) mod ((p - 1) * (q - 1)) = 1"
  shows "(x::int) ^ (nat e * nat d) mod (p * q) = x mod (p * q)"
proof -
  from pp pq have p1: "1 < p" and q1: "1 < q" by (simp_all add: prime_int_def)
  define phi where "phi = (p - 1) * (q - 1)"
  have phi_pos: "0 < phi" using p1 q1 by (simp add: phi_def)
  define k where "k = nat ((e * d) div phi)"
  have ed_nonneg: "0 \<le> e * d" using e0 d0 by simp
  have "e * d = (e * d) div phi * phi + (e * d) mod phi" by simp
  then have "e * d = int k * phi + 1"
    using ed ed_nonneg phi_pos by (simp add: k_def phi_def pos_imp_zdiv_nonneg_iff)
  moreover have np: "int (nat p - 1) = p - 1" and nq: "int (nat q - 1) = q - 1"
    using p1 q1 by simp_all
  moreover have "int (nat e * nat d) = e * d" using e0 d0 by simp
  ultimately have "int (nat e * nat d) = int (1 + k * ((nat p - 1) * (nat q - 1)))"
    by (simp add: phi_def)
  then have exp_eq: "nat e * nat d = 1 + k * ((nat p - 1) * (nat q - 1))"
    by (simp only: of_nat_eq_iff)
  define a b where "a = nat p - 1" and "b = nat q - 1"
  have ea: "nat e * nat d = 1 + (k * b) * a" and eb: "nat e * nat d = 1 + (k * a) * b"
    using exp_eq by (simp_all add: a_def b_def)
  have "x ^ (1 + (k * b) * (nat p - 1)) mod p = x mod p"
    by (rule fermat_cycle[OF pp])
  then have mp: "x ^ (nat e * nat d) mod p = x mod p"
    by (simp only: ea a_def)
  have "x ^ (1 + (k * a) * (nat q - 1)) mod q = x mod q"
    by (rule fermat_cycle[OF pq])
  then have mq: "x ^ (nat e * nat d) mod q = x mod q"
    by (simp only: eb b_def)
  from mp have "p dvd x ^ (nat e * nat d) - x" by (simp add: mod_eq_dvd_iff)
  moreover from mq have "q dvd x ^ (nat e * nat d) - x" by (simp add: mod_eq_dvd_iff)
  ultimately have "p * q dvd x ^ (nat e * nat d) - x"
    using prime_int_coprime[OF pp pq ne] by (rule divides_mult)
  then show ?thesis by (simp add: mod_eq_dvd_iff)
qed

lemma inverse_mod_coprime:
  assumes "inverse_mod q p = Inr c" and "1 < p"
  shows "0 \<le> c \<and> c < p \<and> (c * q) mod p = 1"
proof -
  from assms(1) have "gcd q p = 1"
    by (auto simp: inverse_mod_def split: if_splits)
  from inverse_mod_correct[OF assms(2) this] assms(1) show ?thesis by auto
qed

lemma prime_int_product_gt_1:
  "prime_int p \<Longrightarrow> prime_int q \<Longrightarrow> 1 < p * q"
proof -
  assume "prime_int p" "prime_int q"
  then have "1 < p" "1 < q" by (simp_all add: prime_int_def)
  then have "1 * 1 < p * q" by (intro mult_strict_mono) auto
  then show ?thesis by simp
qed

lemma blind_decrypt_unblind:
  assumes pp: "prime_int p" and pq: "prime_int q" and ne: "p \<noteq> q"
    and n: "n = p * q" and e0: "0 \<le> e" and d0: "0 \<le> d"
    and ed: "(e * d) mod ((p - 1) * (q - 1)) = 1"
    and r: "gcd r n = 1"
  shows "\<exists>i. inverse_mod r n = Inr i
            \<and> (i * (((c * (r ^ nat e mod n)) mod n) ^ nat d mod n)) mod n = c ^ nat d mod n"
proof -
  from pp pq have p1: "1 < p" and q1: "1 < q" by (simp_all add: prime_int_def)
  have "1 * 1 < p * q" using p1 q1 by (intro mult_strict_mono) auto
  then have n1: "1 < n" by (simp add: n)
  from inverse_mod_correct[OF n1 r] obtain i where
    i: "inverse_mod r n = Inr i" and ir: "(i * r) mod n = 1" by blast
  have cyc: "r ^ (nat e * nat d) mod n = r mod n"
    unfolding n by (rule rsa_cycle[OF pp pq ne e0 d0 ed])
  have "((c * (r ^ nat e mod n)) mod n) ^ nat d mod n = (c * r ^ nat e) ^ nat d mod n"
    by (simp add: power_mod mod_mult_right_eq)
  also have "\<dots> = (c ^ nat d * r ^ (nat e * nat d)) mod n"
    by (simp add: power_mult_distrib power_mult)
  also have "\<dots> = (c ^ nat d * (r ^ (nat e * nat d) mod n)) mod n"
    by (simp only: mod_mult_right_eq)
  also have "\<dots> = (c ^ nat d * r) mod n"
    by (simp only: cyc mod_mult_right_eq)
  finally have dec: "((c * (r ^ nat e mod n)) mod n) ^ nat d mod n = (c ^ nat d * r) mod n" .
  have "(i * (((c * (r ^ nat e mod n)) mod n) ^ nat d mod n)) mod n
          = (i * ((c ^ nat d * r) mod n)) mod n"
    by (simp only: dec)
  also have "\<dots> = (i * (c ^ nat d * r)) mod n"
    by (simp only: mod_mult_right_eq)
  also have "\<dots> = (c ^ nat d * (i * r)) mod n"
    by (simp add: mult_ac)
  also have "\<dots> = (c ^ nat d * ((i * r) mod n)) mod n"
    by (simp only: mod_mult_right_eq)
  also have "\<dots> = c ^ nat d mod n"
    by (simp add: ir)
  finally show ?thesis using i by blast
qed

lemma unblind_blind_residue:
  assumes n1: "1 < n" and r: "gcd r n = 1" and e1: "1 \<le> e"
  shows "\<exists>i. inverse_mod r n = Inr i
            \<and> (i * ((c * (r ^ nat e mod n)) mod n)) mod n = (c * r ^ (nat e - 1)) mod n"
proof -
  from inverse_mod_correct[OF n1 r] obtain i where
    i: "inverse_mod r n = Inr i" and ir: "(i * r) mod n = 1" by blast
  from e1 obtain k where k: "nat e = Suc k" by (cases "nat e") auto
  have "(i * ((c * (r ^ nat e mod n)) mod n)) mod n = (i * (c * r ^ nat e)) mod n"
    by (simp add: mod_mult_right_eq)
  also have "i * (c * r ^ nat e) = (c * r ^ k) * (i * r)"
    by (simp add: k mult_ac)
  also have "((c * r ^ k) * (i * r)) mod n = ((c * r ^ k) * ((i * r) mod n)) mod n"
    by (simp only: mod_mult_right_eq)
  also have "\<dots> = (c * r ^ k) mod n"
    by (simp add: ir)
  finally show ?thesis using i k by auto
qed

section \<open>The loops of key generation\<close>

lemma find_p_q_loop_acceptable:
  assumes "find_p_q_loop gp acc tb pb qb p q cp s = Some r"
  shows "is_acceptable acc tb (fst (fst r)) (snd (fst r))"
proof (rule find_p_q_loop.raw_induct
    [where P = "\<lambda>gp acc tb pb qb p q cp s r. is_acceptable acc tb (fst (fst r)) (snd (fst r))",
     OF _ assms])
  fix lp :: "(int \<Rightarrow> 'a \<Rightarrow> int \<times> 'a) \<Rightarrow> bool \<Rightarrow> int \<Rightarrow> int \<Rightarrow> int \<Rightarrow> int \<Rightarrow> int \<Rightarrow> bool \<Rightarrow> 'a
     \<Rightarrow> ((int \<times> int) \<times> 'a) option"
    and gp acc tb pb qb p q cp s r
  assume IH: "\<And>gp acc tb pb qb p q cp s r. lp gp acc tb pb qb p q cp s = Some r \<Longrightarrow>
                is_acceptable acc tb (fst (fst r)) (snd (fst r))"
    and step: "(if is_acceptable acc tb p q then Some ((p, q), s)
      else if cp then
        (case gp pb s of (p', s') \<Rightarrow> lp gp acc tb pb qb p' q (\<not> cp) s')
      else
        (case gp qb s of (q', s') \<Rightarrow> lp gp acc tb pb qb p q' (\<not> cp) s')) = Some r"
  show "is_acceptable acc tb (fst (fst r)) (snd (fst r))"
    using step IH by (auto split: if_splits prod.splits)
qed

lemma find_p_q_Some:
  assumes "find_p_q nbits gp accurate s = Some ((p, q), s')"
  shows "\<exists>p' q'. find_p_q_loop gp accurate (nbits * 2) (nbits + nbits div 16) (nbits - nbits div 16)
            (fst (gp (nbits + nbits div 16) s))
            (fst (gp (nbits - nbits div 16) (snd (gp (nbits + nbits div 16) s))))
            False (snd (gp (nbits - nbits div 16) (snd (gp (nbits + nbits div 16) s))))
          = Some ((p', q'), s')
        \<and> p = max p' q' \<and> q = min p' q' \<and> is_acceptable accurate (nbits * 2) p' q'"
  using assms
  by (auto simp: find_p_q_def Let_def split: prod.splits option.splits
      dest: find_p_q_loop_acceptable)

lemma find_p_q_distinct:
  assumes "find_p_q nbits gp accurate s = Some ((p, q), s')"
  shows "q < p"
  using find_p_q_Some[OF assms] by (auto simp: is_acceptable_def split: if_splits)

lemma gen_keys_Some:
  assumes "gen_keys nbits gp accurate exponent s = Some r"
  shows "(\<forall>err. fst r = Inl err \<longrightarrow> \<not> is_ValueError err)
       \<and> (\<forall>p q e d. fst r = Inr (p, q, e, d) \<longrightarrow>
             calculate_keys_custom_exponent p q exponent = Inr (e, d)
             \<and> (\<exists>s0. find_p_q (nbits div 2) gp accurate s0 = Some ((p, q), snd r)))"
proof (rule gen_keys.raw_induct
    [where P = "\<lambda>nbits gp accurate exponent s r.
       (\<forall>err. fst r = Inl err \<longrightarrow> \<not> is_ValueError err)
       \<and> (\<forall>p q e d. fst r = Inr (p, q, e, d) \<longrightarrow>
             calculate_keys_custom_exponent p q exponent = Inr (e, d)
             \<and> (\<exists>s0. find_p_q (nbits div 2) gp accurate s0 = Some ((p, q), snd r)))",
     OF _ assms])
  fix gk :: "int \<Rightarrow> (int \<Rightarrow> 'a \<Rightarrow> int \<times> 'a) \<Rightarrow> bool \<Rightarrow> int \<Rightarrow> 'a
               \<Rightarrow> ((error + (int \<times> int \<times> int \<times> int)) \<times> 'a) option"
    and nbits gp accurate exponent s r
  assume IH: "\<And>nbits gp accurate exponent s r. gk nbits gp accurate exponent s = Some r \<Longrightarrow>
       (\<forall>err. fst r = Inl err \<longrightarrow> \<not> is_ValueError err)
       \<and> (\<forall>p q e d. fst r = Inr (p, q, e, d) \<longrightarrow>
             calculate_keys_custom_exponent p q exponent = Inr (e, d)
             \<and> (\<exists>s0. find_p_q (nbits div 2) gp accurate s0 = Some ((p, q), snd r)))"
    and step: "(case find_p_q (nbits div 2) gp accurate s of
        None \<Rightarrow> None
      | Some ((p, q), s') \<Rightarrow>
        (case calculate_keys_custom_exponent p q exponent of
           Inl err \<Rightarrow>
             if is_ValueError err then gk nbits gp accurate exponent s'
             else Some (Inl err, s')
         | Inr (e, d) \<Rightarrow> Some (Inr (p, q, e, d), s'))) = Some r"
  show "(\<forall>err. fst r = Inl err \<longrightarrow> \<not> is_ValueError err)
       \<and> (\<forall>p q e d. fst r = Inr (p, q, e, d) \<longrightarrow>
             calculate_keys_custom_exponent p q exponent = Inr (e, d)
             \<and> (\<exists>s0. find_p_q (nbits div 2) gp accurate s0 = Some ((p, q), snd r)))"
  proof (cases "find_p_q (nbits div 2) gp accurate s")
    case None
    with step show ?thesis by simp
  next
    case (Some a)
    obtain p q s' where a: "a = ((p, q), s')" by (metis prod.exhaust)
    show ?thesis
    proof (cases "calculate_keys_custom_exponent p q exponent")
      case (Inl err)
      show ?thesis
      proof (cases "is_ValueError err")
        case True
        with step Some a Inl have "gk nbits gp accurate exponent s' = Some r" by simp
        from IH[OF this] show ?thesis .
      next
        case False
        with step Some a Inl show ?thesis by auto
      qed
    next
      case (Inr ed)
      obtain e d where ed: "ed = (e, d)" by (metis prod.exhaust)
      with step Some a Inr have "r = (Inr (p, q, e, d), s')" by simp
      with Some a Inr ed show ?thesis by auto
    qed
  qed
qed

lemma calculate_keys_custom_exponent_Inr:
  assumes "calculate_keys_custom_exponent p q exponent = Inr (e, d)"
  shows "e = exponent \<and> (exponent * d) mod ((p - 1) * (q - 1)) = 1
         \<and> inverse_mod exponent ((p - 1) * (q - 1)) = Inr d"
  using assms
  by (auto simp: calculate_keys_custom_exponent_def Let_def py_mod_def
      split: sum.splits error.splits if_splits)

section \<open>Construction and loading of private keys\<close>

lemma PrivateKey_init_Inr:
  assumes "PrivateKey_init n e d p q = Inr key"
  shows "key_n key = n \<and> key_e key = e \<and> key_d key = d \<and> key_p key = p \<and> key_q key = q
         \<and> exp1 key = d mod (p - 1) \<and> exp2 key = d mod (q - 1)
         \<and> inverse_mod q p = Inr (coef key)"
  using assms
  by (auto simp: PrivateKey_init_def py_mod_def split: sum.splits if_splits)

lemma PrivateKey_init_not_too_small:
  "PrivateKey_init n e d p q \<noteq> Inl (ValueError v)"
  by (auto simp: PrivateKey_init_def py_mod_def inverse_mod_def split: sum.splits prod.splits)

lemma PrivateKey_load_pkcs1_der_Inr:
  assumes "PrivateKey_load_pkcs1_der decode keyfile = Inr (key, lg)"
  shows "\<exists>n e d p q x1 x2 c others.
           decode keyfile = Inr (0 # n # e # d # p # q # x1 # x2 # c # others)
         \<and> PrivateKey_init n e d p q = Inr key
         \<and> lg = (if (exp1 key, exp2 key, coef key) \<noteq> (x1, x2, c) then [malformed_keyfile] else [])"
proof -
  from assms obtain priv where dec: "decode keyfile = Inr priv"
    by (auto simp: PrivateKey_load_pkcs1_der_def split: sum.splits)
  from assms dec obtain rest where p0: "priv = 0 # rest"
    by (auto simp: PrivateKey_load_pkcs1_der_def split: list.splits if_splits)
  from assms dec p0 obtain n e d p q where five: "take 5 rest = [n, e, d, p, q]"
    by (auto simp: PrivateKey_load_pkcs1_der_def split: list.splits)
  from assms dec p0 five have init: "PrivateKey_init n e d p q = Inr key"
    by (auto simp: PrivateKey_load_pkcs1_der_def split: sum.splits list.splits)
  from assms dec p0 five init obtain x1 x2 c where three: "take 3 (drop 5 rest) = [x1, x2, c]"
    by (auto simp: PrivateKey_load_pkcs1_der_def split: list.splits)
  from assms dec p0 five init three
  have lg: "lg = (if (exp1 key, exp2 key, coef key) \<noteq> (x1, x2, c) then [malformed_keyfile] else [])"
    by (auto simp: PrivateKey_load_pkcs1_der_def split: if_splits)
  have "rest = take 5 rest @ (take 3 (drop 5 rest) @ drop 3 (drop 5 rest))"
    by (simp only: append_take_drop_id)
  then have "rest = n # e # d # p # q # x1 # x2 # c # drop 3 (drop 5 rest)"
    by (simp only: five three append_Cons append_Nil)
  then obtain others where "rest = n # e # d # p # q # x1 # x2 # c # others" ..
  with dec p0 init lg show ?thesis by blast
qed

section \<open>The claims\<close>

text \<open>
  Claim C1. Every key pair that \<open>newkeys\<close> returns was asked for with at least 16
  bits; its public and its private key have the same \<open>n\<close> and the same \<open>e\<close>, and the
  private key has \<open>n = p * q\<close>, \<open>(e * d) mod ((p - 1) * (q - 1)) = 1\<close> and \<open>p \<noteq> q\<close>.
  This holds for every randomness source \<open>gp\<close>.
\<close>

theorem newkeys_key_pair:
  assumes "newkeys gp nbits accurate poolsize exponent s = Some (Inr (pub, priv), s')"
  shows "16 \<le> nbits
       \<and> key_n pub = key_n priv \<and> key_e pub = key_e priv
       \<and> key_n priv = key_p priv * key_q priv
       \<and> (key_e priv * key_d priv) mod ((key_p priv - 1) * (key_q priv - 1)) = 1
       \<and> key_p priv \<noteq> key_q priv"
proof -
  from assms have big: "16 \<le> nbits" and pool: "\<not> poolsize < 1"
    by (auto simp: newkeys_def split: if_splits)
  from assms big pool obtain p q e d where
    gk: "gen_keys nbits gp accurate exponent s = Some (Inr (p, q, e, d), s')"
    and init: "PrivateKey_init (p * q) e d p q = Inr priv"
    and pub: "pub = PublicKey_init (p * q) e"
    by (auto simp: newkeys_def Let_def split: option.splits sum.splits prod.splits)
  from gen_keys_Some[OF gk] obtain s0 where
    calc: "calculate_keys_custom_exponent p q exponent = Inr (e, d)"
    and fpq: "find_p_q (nbits div 2) gp accurate s0 = Some ((p, q), s')"
    by auto
  from calculate_keys_custom_exponent_Inr[OF calc]
  have e: "e = exponent" and ed: "(exponent * d) mod ((p - 1) * (q - 1)) = 1" by simp_all
  from find_p_q_distinct[OF fpq] have "p \<noteq> q" by simp
  with PrivateKey_init_Inr[OF init] pub e ed big show ?thesis
    by (simp add: PublicKey_init_def)
qed

text \<open>
  Claim C1, on a concrete run: the source first draws 251 and 241, whose \<open>phi_n\<close> is
  a multiple of the exponent 3, so \<open>gen_keys\<close> draws again and gets 239 and 251.
\<close>

theorem newkeys_key_pair_witness:
  "newkeys replay 16 True 1 3 [251, 241, 239, 251]
     = Some (Inr (\<lparr>key_n = 59989, key_e = 3\<rparr>,
                  \<lparr>key_n = 59989, key_e = 3, key_d = 39667, key_p = 251, key_q = 239,
                    exp1 = 167, exp2 = 159, coef = 230\<rparr>), [])
   \<and> (59989::int) = 251 * 239
   \<and> (3 * 39667) mod ((251 - 1) * (239 - 1)) = (1::int)"
proof -
  have r: "newkeys replay 16 True 1 3 [251, 241, 239, 251]
     = Some (Inr (\<lparr>key_n = 59989, key_e = 3\<rparr>,
                  \<lparr>key_n = 59989, key_e = 3, key_d = 39667, key_p = 251, key_q = 239,
                    exp1 = 167, exp2 = 159, coef = 230\<rparr>), [])"
    by code_simp
  from newkeys_key_pair[OF r] r show ?thesis by simp
qed

text \<open>
  Claim C2, as stated, is false: \<open>unblind(blind(m, r), r)\<close> is not \<open>m\<close>. With
  \<open>n = 15\<close>, \<open>e = 3\<close>, \<open>m = 1\<close> and \<open>r = 2\<close>, which is coprime to 15, blinding gives 8 and
  unblinding 8 gives 4.
\<close>

theorem blinding_transparency_counterexample:
  "gcd (2::int) 15 = 1
   \<and> blind \<lparr>key_n = 15, key_e = 3\<rparr> 1 2 = Inr 8
   \<and> unblind \<lparr>key_n = 15, key_e = 3\<rparr> 8 2 = Inr 4"
  by code_simp

text \<open>
  Claim C2, amended to what the docstrings of \<open>blind\<close> and \<open>unblind\<close> say: blinding
  is transparent through decryption. For a key whose modulus is the product of two
  different primes \<open>p\<close> and \<open>q\<close>, with exponents \<open>e\<close> and \<open>d\<close> that are not negative and
  satisfy \<open>(e * d) mod ((p - 1) * (q - 1)) = 1\<close>, every message \<open>c\<close> and every \<open>r\<close> coprime
  to \<open>n\<close>: unblinding the decryption of the blinded message is the decryption of the
  message itself. Unblinding the blinded message itself gives \<open>(c * r^(e - 1)) mod n\<close>.
\<close>

theorem blinding_transparent_through_decryption:
  assumes "prime_int p" and "prime_int q" and "p \<noteq> q"
    and "key_n key = p * q" and "0 \<le> key_e key" and "0 \<le> d"
    and "(key_e key * d) mod ((p - 1) * (q - 1)) = 1"
    and "gcd r (key_n key) = 1"
  shows "(\<exists>blinded decrypted.
            blind key c r = Inr blinded
          \<and> decrypt_int blinded d (key_n key) = Inr decrypted
          \<and> unblind key decrypted r = decrypt_int c d (key_n key))
       \<and> (\<exists>blinded.
            blind key c r = Inr blinded
          \<and> unblind key blinded r = Inr ((c * r ^ (nat (key_e key) - 1)) mod key_n key))"
proof
  have n1: "1 < key_n key"
    using prime_int_product_gt_1[OF assms(1,2)] assms(4) by simp
  from blind_decrypt_unblind[OF assms(1-3) assms(4) assms(5) assms(6) assms(7) assms(8), of c]
  obtain i where i: "inverse_mod r (key_n key) = Inr i"
    and eq: "(i * (((c * (r ^ nat (key_e key) mod key_n key)) mod key_n key) ^ nat d mod key_n key))
               mod key_n key = c ^ nat d mod key_n key" by blast
  show "\<exists>blinded decrypted.
            blind key c r = Inr blinded
          \<and> decrypt_int blinded d (key_n key) = Inr decrypted
          \<and> unblind key decrypted r = decrypt_int c d (key_n key)"
    using n1 i eq
    by (simp add: blind_def unblind_def decrypt_int_def fast_pow_def py_mod_def)
  have "key_e key \<noteq> 0"
  proof
    assume "key_e key = 0"
    with assms(7) show False by simp
  qed
  with assms(5) have e1: "1 \<le> key_e key" by simp
  from unblind_blind_residue[OF n1 assms(8) e1, of c]
  show "\<exists>blinded.
            blind key c r = Inr blinded
          \<and> unblind key blinded r = Inr ((c * r ^ (nat (key_e key) - 1)) mod key_n key)"
    using n1
    by (auto simp: blind_def unblind_def fast_pow_def py_mod_def)
qed

text \<open>
  Claim C2 as amended, at \<open>n = 15 = 5 * 3\<close>, \<open>e = d = 3\<close>, \<open>c = 1\<close> and \<open>r = 2\<close>.
\<close>

theorem blinding_transparent_through_decryption_witness:
  "blind \<lparr>key_n = 15, key_e = 3\<rparr> 1 2 = Inr 8
   \<and> decrypt_int 8 3 15 = Inr 2
   \<and> unblind \<lparr>key_n = 15, key_e = 3\<rparr> 2 2 = decrypt_int 1 3 15
   \<and> unblind \<lparr>key_n = 15, key_e = 3\<rparr> 8 2 = Inr ((1 * 2 ^ 2) mod 15)"
proof -
  have p5: "prime_int 5" and p3: "prime_int 3" by code_simp+
  have g: "gcd (2::int) (key_n \<lparr>key_n = 15, key_e = 3\<rparr>) = 1" by code_simp
  have b: "blind \<lparr>key_n = 15, key_e = 3\<rparr> 1 2 = Inr 8" by code_simp
  have d: "decrypt_int 8 3 15 = Inr 2" by code_simp
  from blinding_transparent_through_decryption[of 5 3 "\<lparr>key_n = 15, key_e = 3\<rparr>" 3 2 1, OF p5 p3 _ _ _ _ _ g]
    b d show ?thesis by simp
qed

text \<open>
  Claim C3. For a private key whose \<open>p\<close> and \<open>q\<close> are different primes, with
  \<open>n = p * q\<close>, exponents that are not negative and
  \<open>(e * d) mod ((p - 1) * (q - 1)) = 1\<close>, and every message \<open>0 \<le> m < n\<close>:
  \<open>blinded_decrypt\<close> of the encryption \<open>m^e mod n\<close> is \<open>m\<close>, whichever blinding factor
  \<open>r\<close> in \<open>[1, n - 1]\<close> coprime to \<open>n\<close> the randomness source draws.
\<close>

theorem blinded_decrypt_round_trip:
  assumes "prime_int (key_p key)" and "prime_int (key_q key)" and "key_p key \<noteq> key_q key"
    and "key_n key = key_p key * key_q key"
    and "0 \<le> key_e key" and "0 \<le> key_d key"
    and "(key_e key * key_d key) mod ((key_p key - 1) * (key_q key - 1)) = 1"
    and "0 \<le> m" and "m < key_n key"
    and "randint (key_n key - 1) s = (r, s')"
    and "1 \<le> r" and "r \<le> key_n key - 1" and "gcd r (key_n key) = 1"
  shows "fast_pow m (key_e key) (key_n key) = Inr (m ^ nat (key_e key) mod key_n key)
       \<and> blinded_decrypt randint key (m ^ nat (key_e key) mod key_n key) s = (Inr m, s')"
proof -
  let ?n = "key_n key" and ?e = "key_e key" and ?d = "key_d key"
  let ?c = "m ^ nat ?e mod ?n"
  have n1: "1 < ?n"
    using prime_int_product_gt_1[OF assms(1,2)] assms(4) by simp
  from blind_decrypt_unblind[OF assms(1-3) assms(4) assms(5) assms(6) assms(7) assms(13), of "?c"]
  obtain i where i: "inverse_mod r ?n = Inr i"
    and eq: "(i * (((?c * (r ^ nat ?e mod ?n)) mod ?n) ^ nat ?d mod ?n)) mod ?n = ?c ^ nat ?d mod ?n"
    by blast
  have "?c ^ nat ?d mod ?n = (m ^ nat ?e) ^ nat ?d mod ?n"
    by (simp add: power_mod)
  also have "\<dots> = m ^ (nat ?e * nat ?d) mod ?n"
    by (simp add: power_mult)
  also have "\<dots> = m mod ?n"
    using rsa_cycle[OF assms(1-3) assms(5) assms(6) assms(7), of m] assms(4) by simp
  also have "\<dots> = m" using assms(8,9) by simp
  finally have recover: "?c ^ nat ?d mod ?n = m" .
  show ?thesis
    using n1 i eq recover assms(10)
    by (simp add: blinded_decrypt_def blind_def unblind_def decrypt_int_def fast_pow_def py_mod_def)
qed

text \<open>
  Claim C3, at the key \<open>n = 15\<close>, \<open>e = d = 3\<close>, \<open>p = 5\<close>, \<open>q = 3\<close>, the message 2 and the
  blinding factor 2.
\<close>

theorem blinded_decrypt_round_trip_witness:
  "fast_pow 2 3 15 = Inr 8
   \<and> blinded_decrypt replay
        \<lparr>key_n = 15, key_e = 3, key_d = 3, key_p = 5, key_q = 3, exp1 = 3, exp2 = 1, coef = 2\<rparr>
        8 [2] = (Inr 2, [])"
proof -
  let ?K = "\<lparr>key_n = 15, key_e = 3, key_d = 3, key_p = 5, key_q = 3, exp1 = 3, exp2 = 1, coef = 2\<rparr>"
  have p5: "prime_int (key_p ?K)" and p3: "prime_int (key_q ?K)" by code_simp+
  have g: "gcd (2::int) (key_n ?K) = 1" by code_simp
  have rd: "replay (key_n ?K - 1) [2] = (2, [])" by (simp add: replay_def)
  from blinded_decrypt_round_trip[of ?K 2 replay "[2]" 2 "[]", OF p5 p3 _ _ _ _ _ _ _ rd _ _ g]
  show ?thesis by simp
qed

text \<open>
  Claim C4. Every pair \<open>(p, q)\<close> that \<open>find_p_q\<close> returns in accurate mode has
  \<open>p > q\<close>, \<open>p \<noteq> q\<close> and a product of exactly \<open>2 * nbits\<close> bits, and it is the larger
  and the smaller of the two primes the loop ended with. The loop starts with
  \<open>change_p = False\<close>; on a pair that is not acceptable it draws a new \<open>q\<close> when
  \<open>change_p\<close> is false and a new \<open>p\<close> when it is true, and flips \<open>change_p\<close>: first
  \<open>q\<close>, then \<open>p\<close>, in turns.
\<close>

theorem find_p_q_accurate:
  "(find_p_q nbits gp True s = Some ((p, q), s') \<longrightarrow>
      q < p \<and> p \<noteq> q \<and> bit_size (p * q) = 2 * nbits
      \<and> (\<exists>p' q'. find_p_q_loop gp True (nbits * 2) (nbits + nbits div 16) (nbits - nbits div 16)
                     (fst (gp (nbits + nbits div 16) s))
                     (fst (gp (nbits - nbits div 16) (snd (gp (nbits + nbits div 16) s))))
                     False (snd (gp (nbits - nbits div 16) (snd (gp (nbits + nbits div 16) s))))
                   = Some ((p', q'), s')
                 \<and> p = max p' q' \<and> q = min p' q'))
   \<and> (\<not> is_acceptable True tb p1 q1 \<longrightarrow>
        find_p_q_loop gp True tb pb qb p1 q1 False s1
          = find_p_q_loop gp True tb pb qb p1 (fst (gp qb s1)) True (snd (gp qb s1)))
   \<and> (\<not> is_acceptable True tb p1 q1 \<longrightarrow>
        find_p_q_loop gp True tb pb qb p1 q1 True s1
          = find_p_q_loop gp True tb pb qb (fst (gp pb s1)) q1 False (snd (gp pb s1)))"
proof (intro conjI impI)
  assume r: "find_p_q nbits gp True s = Some ((p, q), s')"
  from find_p_q_Some[OF r] obtain p' q' where
    lp: "find_p_q_loop gp True (nbits * 2) (nbits + nbits div 16) (nbits - nbits div 16)
            (fst (gp (nbits + nbits div 16) s))
            (fst (gp (nbits - nbits div 16) (snd (gp (nbits + nbits div 16) s))))
            False (snd (gp (nbits - nbits div 16) (snd (gp (nbits + nbits div 16) s))))
          = Some ((p', q'), s')"
    and pq: "p = max p' q'" "q = min p' q'"
    and acc: "is_acceptable True (nbits * 2) p' q'" by blast
  from acc have ne: "p' \<noteq> q'" and bits: "bit_size (p' * q') = nbits * 2"
    by (auto simp: is_acceptable_def split: if_splits)
  show "q < p" using pq ne by auto
  show "p \<noteq> q" using pq ne by auto
  have "p * q = p' * q'" using pq by (auto simp: max_def min_def)
  then show "bit_size (p * q) = 2 * nbits" using bits by simp
  show "\<exists>p' q'. find_p_q_loop gp True (nbits * 2) (nbits + nbits div 16) (nbits - nbits div 16)
                     (fst (gp (nbits + nbits div 16) s))
                     (fst (gp (nbits - nbits div 16) (snd (gp (nbits + nbits div 16) s))))
                     False (snd (gp (nbits - nbits div 16) (snd (gp (nbits + nbits div 16) s))))
                   = Some ((p', q'), s')
                 \<and> p = max p' q' \<and> q = min p' q'"
    using lp pq by blast
next
  assume "\<not> is_acceptable True tb p1 q1"
  then show "find_p_q_loop gp True tb pb qb p1 q1 False s1
          = find_p_q_loop gp True tb pb qb p1 (fst (gp qb s1)) True (snd (gp qb s1))"
    by (subst find_p_q_loop.simps) (simp split: prod.splits)
next
  assume "\<not> is_acceptable True tb p1 q1"
  then show "find_p_q_loop gp True tb pb qb p1 q1 True s1
          = find_p_q_loop gp True tb pb qb (fst (gp pb s1)) q1 False (snd (gp pb s1))"
    by (subst find_p_q_loop.simps) (simp split: prod.splits)
qed

text \<open>
  Claim C4, on a concrete run: the source draws 181 twice, so the first pair is not
  acceptable and \<open>q\<close> is drawn again; the product of 181 and 179 has 15 bits only, so
  \<open>p\<close> is drawn again.
\<close>

theorem find_p_q_accurate_witness:
  "find_p_q 8 replay True [181, 181, 179, 251] = Some ((251, 179), [])
   \<and> (179::int) < 251 \<and> bit_size (251 * 179) = 2 * 8
   \<and> \<not> is_acceptable True 16 181 181
   \<and> find_p_q_loop replay True 16 8 8 181 181 False [179, 251]
       = find_p_q_loop replay True 16 8 8 181 179 True [251]
   \<and> \<not> is_acceptable True 16 181 179
   \<and> find_p_q_loop replay True 16 8 8 181 179 True [251]
       = find_p_q_loop replay True 16 8 8 251 179 False []"
proof -
  have r: "find_p_q 8 replay True [181, 181, 179, 251] = Some ((251, 179), [])"
    by code_simp
  have a1: "\<not> is_acceptable True 16 181 181" by code_simp
  have a2: "\<not> is_acceptable True 16 181 179" by code_simp
  have g1: "replay 8 [179, 251] = (179, [251])" and g2: "replay 8 [251] = (251, [])"
    by (simp_all add: replay_def)
  from find_p_q_accurate[of 8 replay "[181, 181, 179, 251]" 251 179 "[]" 16 181 181 8 8 "[179, 251]"]
    find_p_q_accurate[of 8 replay "[181, 181, 179, 251]" 251 179 "[]" 16 181 179 8 8 "[251]"]
    r a1 a2 g1 g2
  show ?thesis by simp
qed

text \<open>
  Claim C5. \<open>calculate_keys_custom_exponent\<close> works with \<open>phi_n = (p - 1) * (q - 1)\<close>
  and \<open>d = inverse(exponent, phi_n)\<close>. When the greatest common divisor of the exponent
  and \<open>phi_n\<close> is not 1 it fails with \<open>NotRelativePrimeError\<close>, raised again with its own
  message and carrying that divisor. Otherwise it checks
  \<open>(exponent * d) mod phi_n = 1\<close> and fails with a \<open>ValueError\<close> if that does not hold. A
  result is \<open>(exponent, d)\<close> with \<open>(exponent * d) mod phi_n = 1\<close>. (For \<open>phi_n = 0\<close>,
  that is \<open>p = 1\<close> or \<open>q = 1\<close>, the check itself divides by zero.)
\<close>

theorem calculate_keys_custom_exponent_outcomes:
  "(gcd exponent ((p - 1) * (q - 1)) \<noteq> 1 \<longrightarrow>
      calculate_keys_custom_exponent p q exponent
        = Inl (NotRelativePrimeError exponent ((p - 1) * (q - 1))
                 (gcd exponent ((p - 1) * (q - 1))) True))
   \<and> (gcd exponent ((p - 1) * (q - 1)) = 1 \<and> (p - 1) * (q - 1) \<noteq> 0 \<longrightarrow>
        (\<exists>d. inverse_mod exponent ((p - 1) * (q - 1)) = Inr d
           \<and> calculate_keys_custom_exponent p q exponent
               = (if (exponent * d) mod ((p - 1) * (q - 1)) \<noteq> 1
                  then Inl (ValueError (NotMultInv exponent d ((p - 1) * (q - 1))))
                  else Inr (exponent, d))))
   \<and> (calculate_keys_custom_exponent p q exponent = Inr (e, d') \<longrightarrow>
        e = exponent \<and> inverse_mod exponent ((p - 1) * (q - 1)) = Inr d'
        \<and> (exponent * d') mod ((p - 1) * (q - 1)) = 1)"
  by (auto simp: calculate_keys_custom_exponent_def Let_def py_mod_def inverse_mod_def
      split: sum.splits error.splits if_splits prod.splits)

text \<open>
  Claim C5, at the primes 251 and 239 with the exponent 3, and at 251 and 241, where
  3 divides \<open>phi_n = 60000\<close>.
\<close>

theorem calculate_keys_custom_exponent_outcomes_witness:
  "calculate_keys_custom_exponent 251 239 3 = Inr (3, 39667)
   \<and> (3 * 39667) mod ((251 - 1) * (239 - 1)) = (1::int)
   \<and> gcd (3::int) ((251 - 1) * (241 - 1)) = 3
   \<and> calculate_keys_custom_exponent 251 241 3 = Inl (NotRelativePrimeError 3 60000 3 True)"
proof -
  have g1: "gcd (3::int) ((251 - 1) * (241 - 1)) = 3" by code_simp
  have g2: "gcd (3::int) ((251 - 1) * (239 - 1)) = 1" by code_simp
  have i: "inverse_mod 3 ((251 - 1) * (239 - 1)) = Inr 39667" by code_simp
  have r: "calculate_keys_custom_exponent 251 239 3 = Inr (3, 39667)" by code_simp
  from calculate_keys_custom_exponent_outcomes[of 3 251 241 3 39667]
    calculate_keys_custom_exponent_outcomes[of 3 251 239 3 39667] g1 g2 i r
  show ?thesis by simp
qed

text \<open>
  Claim C6, as stated, is false for a key restored by \<open>__setstate__\<close>: the state
  \<open>(15, 3, 3, 5, 3, 0, 0, 0)\<close> gives a key with \<open>exp1 = 0\<close>, while \<open>d mod (p - 1) = 3\<close>.
\<close>

theorem private_key_invariant_counterexample:
  "exp1 (PrivateKey_setstate (15, 3, 3, 5, 3, 0, 0, 0))
     \<noteq> key_d (PrivateKey_setstate (15, 3, 3, 5, 3, 0, 0, 0))
         mod (key_p (PrivateKey_setstate (15, 3, 3, 5, 3, 0, 0, 0)) - 1)"
  by simp

text \<open>
  Claim C6, amended: every private key made by the constructor or by the DER
  decoder has \<open>exp1 = d mod (p - 1)\<close>, \<open>exp2 = d mod (q - 1)\<close> and
  \<open>coef = inverse(q, p)\<close>, which for \<open>p > 1\<close> is the number in \<open>[0, p)\<close> with
  \<open>(coef * q) mod p = 1\<close>; \<open>__setstate__\<close> takes all eight fields from the state it is
  given, so that \<open>__getstate__\<close> gives that state back.
\<close>

theorem private_key_invariant:
  "(PrivateKey_init n e d p q = Inr key \<longrightarrow>
      key_d key = d \<and> key_p key = p \<and> key_q key = q
      \<and> exp1 key = d mod (p - 1) \<and> exp2 key = d mod (q - 1)
      \<and> inverse_mod q p = Inr (coef key)
      \<and> (1 < p \<longrightarrow> 0 \<le> coef key \<and> coef key < p \<and> (coef key * q) mod p = 1))
   \<and> (PrivateKey_load_pkcs1_der decode keyfile = Inr (key', lg) \<longrightarrow>
        exp1 key' = key_d key' mod (key_p key' - 1)
        \<and> exp2 key' = key_d key' mod (key_q key' - 1)
        \<and> inverse_mod (key_q key') (key_p key') = Inr (coef key')
        \<and> (1 < key_p key' \<longrightarrow>
             0 \<le> coef key' \<and> coef key' < key_p key' \<and> (coef key' * key_q key') mod key_p key' = 1))
   \<and> PrivateKey_getstate (PrivateKey_setstate st) = st"
proof (intro conjI impI)
  assume init: "PrivateKey_init n e d p q = Inr key"
  note f = PrivateKey_init_Inr[OF init]
  from f show "key_d key = d" "key_p key = p" "key_q key = q"
    "exp1 key = d mod (p - 1)" "exp2 key = d mod (q - 1)" "inverse_mod q p = Inr (coef key)"
    by simp_all
  assume "1 < p"
  with inverse_mod_coprime[of q p "coef key"] f
  show "0 \<le> coef key" "coef key < p" "(coef key * q) mod p = 1" by simp_all
next
  assume ld: "PrivateKey_load_pkcs1_der decode keyfile = Inr (key', lg)"
  from PrivateKey_load_pkcs1_der_Inr[OF ld] obtain n e d p q where
    init: "PrivateKey_init n e d p q = Inr key'" by blast
  note f = PrivateKey_init_Inr[OF init]
  from f show "exp1 key' = key_d key' mod (key_p key' - 1)"
    "exp2 key' = key_d key' mod (key_q key' - 1)"
    "inverse_mod (key_q key') (key_p key') = Inr (coef key')"
    by simp_all
  assume "1 < key_p key'"
  with inverse_mod_coprime[of "key_q key'" "key_p key'" "coef key'"] f
  show "0 \<le> coef key'" "coef key' < key_p key'" "(coef key' * key_q key') mod key_p key' = 1"
    by simp_all
next
  show "PrivateKey_getstate (PrivateKey_setstate st) = st"
    by (cases st) (auto simp: PrivateKey_getstate_def)
qed

text \<open>
  Claim C6 as amended, at the key of the docstring of \<open>PrivateKey\<close>, made by the
  constructor and decoded from a sequence whose encoded exponents are wrong.
\<close>

theorem private_key_invariant_witness:
  "PrivateKey_init 3727264081 65537 3349121513 65063 57287
     = Inr \<lparr>key_n = 3727264081, key_e = 65537, key_d = 3349121513, key_p = 65063,
             key_q = 57287, exp1 = 55063, exp2 = 10095, coef = 50797\<rparr>
   \<and> (55063::int) = 3349121513 mod (65063 - 1)
   \<and> (10095::int) = 3349121513 mod (57287 - 1)
   \<and> (50797 * 57287) mod 65063 = (1::int)
   \<and> PrivateKey_load_pkcs1_der Inr [0, 3727264081, 65537, 3349121513, 65063, 57287, 1, 2, 3]
       = Inr (\<lparr>key_n = 3727264081, key_e = 65537, key_d = 3349121513, key_p = 65063,
               key_q = 57287, exp1 = 55063, exp2 = 10095, coef = 50797\<rparr>, [malformed_keyfile])"
proof -
  let ?K = "\<lparr>key_n = 3727264081, key_e = 65537, key_d = 3349121513, key_p = 65063,
             key_q = 57287, exp1 = 55063, exp2 = 10095, coef = 50797\<rparr>"
  have k: "PrivateKey_init 3727264081 65537 3349121513 65063 57287 = Inr ?K" by code_simp
  have l: "PrivateKey_load_pkcs1_der Inr [0, 3727264081, 65537, 3349121513, 65063, 57287, 1, 2, 3]
             = Inr (?K, [malformed_keyfile])" by code_simp
  from private_key_invariant[of 3727264081 65537 3349121513 65063 57287 ?K Inr
      "[0, 3727264081, 65537, 3349121513, 65063, 57287, 1, 2, 3]" ?K "[malformed_keyfile]"] k l
  show ?thesis by simp
qed

text \<open>
  Claim C7, as stated, is false: decoding can fail although the version is 0. The
  sequence \<open>0, 3, 1, 1, 1, 3, 0, 0, 0\<close> has \<open>p = 1\<close>, and the constructor divides by
  \<open>p - 1\<close>.
\<close>

theorem PrivateKey_load_pkcs1_der_counterexample:
  "PrivateKey_load_pkcs1_der Inr [0, 3, 1, 1, 1, 3, 0, 0, 0] = Inl ZeroDivisionError"
  by code_simp

text \<open>
  Claim C7, amended: decoding a sequence whose version is not 0 fails with the
  \<open>ValueError\<close> of the version. When the version is 0, eight more integers follow and
  the constructor accepts \<open>n, e, d, p, q\<close>, the result is the key the constructor makes
  of these five integers; the three encoded values \<open>x1, x2, c\<close> only decide whether a
  message is logged. The constructor accepts its arguments when \<open>p > 1\<close>, \<open>q \<noteq> 1\<close>
  and \<open>gcd q p = 1\<close>, and computes \<open>exp1\<close>, \<open>exp2\<close> and \<open>coef\<close> itself; \<open>coef\<close> is then the
  number in \<open>[0, p)\<close> with \<open>(coef * q) mod p = 1\<close>.
\<close>

theorem PrivateKey_load_pkcs1_der_outcomes:
  "(decode keyfile = Inr (v # rest) \<and> v \<noteq> 0 \<longrightarrow>
      PrivateKey_load_pkcs1_der decode keyfile = Inl (ValueError (BadVersion v)))
   \<and> (decode keyfile = Inr (0 # n # e # d # p # q # x1 # x2 # c # others)
        \<and> PrivateKey_init n e d p q = Inr key \<longrightarrow>
        PrivateKey_load_pkcs1_der decode keyfile
          = Inr (key, if (exp1 key, exp2 key, coef key) \<noteq> (x1, x2, c)
                      then [malformed_keyfile] else []))
   \<and> (1 < p \<and> q \<noteq> 1 \<and> gcd q p = 1 \<longrightarrow>
        (\<exists>c'. inverse_mod q p = Inr c' \<and> 0 \<le> c' \<and> c' < p \<and> (c' * q) mod p = 1
           \<and> PrivateKey_init n e d p q
               = Inr \<lparr>key_n = n, key_e = e, key_d = d, key_p = p, key_q = q,
                      exp1 = d mod (p - 1), exp2 = d mod (q - 1), coef = c'\<rparr>))"
proof (intro conjI impI)
  assume "decode keyfile = Inr (v # rest) \<and> v \<noteq> 0"
  then show "PrivateKey_load_pkcs1_der decode keyfile = Inl (ValueError (BadVersion v))"
    by (simp add: PrivateKey_load_pkcs1_der_def)
next
  assume "decode keyfile = Inr (0 # n # e # d # p # q # x1 # x2 # c # others)
            \<and> PrivateKey_init n e d p q = Inr key"
  then show "PrivateKey_load_pkcs1_der decode keyfile
          = Inr (key, if (exp1 key, exp2 key, coef key) \<noteq> (x1, x2, c)
                      then [malformed_keyfile] else [])"
    by (simp add: PrivateKey_load_pkcs1_der_def)
next
  assume h: "1 < p \<and> q \<noteq> 1 \<and> gcd q p = 1"
  then have p1: "1 < p" and q1: "q \<noteq> 1" and g: "gcd q p = 1" by simp_all
  from inverse_mod_correct[OF p1 g] obtain c' where
    i: "inverse_mod q p = Inr c'" and r: "0 \<le> c'" "c' < p" "(c' * q) mod p = 1" by blast
  have "PrivateKey_init n e d p q
          = Inr \<lparr>key_n = n, key_e = e, key_d = d, key_p = p, key_q = q,
                 exp1 = d mod (p - 1), exp2 = d mod (q - 1), coef = c'\<rparr>"
    using p1 q1 i by (simp add: PrivateKey_init_def py_mod_def)
  with i r show "\<exists>c'. inverse_mod q p = Inr c' \<and> 0 \<le> c' \<and> c' < p \<and> (c' * q) mod p = 1
           \<and> PrivateKey_init n e d p q
               = Inr \<lparr>key_n = n, key_e = e, key_d = d, key_p = p, key_q = q,
                      exp1 = d mod (p - 1), exp2 = d mod (q - 1), coef = c'\<rparr>"
    by blast
qed

text \<open>
  Claim C7 as amended, at the key of the docstring of \<open>PrivateKey\<close>, once with the
  version 1 and once with the version 0 and wrong encoded exponents.
\<close>

theorem PrivateKey_load_pkcs1_der_outcomes_witness:
  "PrivateKey_load_pkcs1_der Inr [1, 3727264081, 65537, 3349121513, 65063, 57287, 55063, 10095, 50797]
     = Inl (ValueError (BadVersion 1))
   \<and> PrivateKey_load_pkcs1_der Inr [0, 3727264081, 65537, 3349121513, 65063, 57287, 1, 2, 3]
     = Inr (\<lparr>key_n = 3727264081, key_e = 65537, key_d = 3349121513, key_p = 65063,
             key_q = 57287, exp1 = 55063, exp2 = 10095, coef = 50797\<rparr>, [malformed_keyfile])
   \<and> (1::int) < 65063 \<and> (57287::int) \<noteq> 1 \<and> gcd (57287::int) 65063 = 1
   \<and> inverse_mod 57287 65063 = Inr 50797 \<and> (50797 * 57287) mod 65063 = (1::int)"
proof -
  let ?K = "\<lparr>key_n = 3727264081, key_e = 65537, key_d = 3349121513, key_p = 65063,
             key_q = 57287, exp1 = 55063, exp2 = 10095, coef = 50797\<rparr>"
  have g: "gcd (57287::int) 65063 = 1" by code_simp
  have i: "inverse_mod 57287 65063 = Inr 50797" by code_simp
  have k: "PrivateKey_init 3727264081 65537 3349121513 65063 57287 = Inr ?K" by code_simp
  from PrivateKey_load_pkcs1_der_outcomes[of Inr
      "[1, 3727264081, 65537, 3349121513, 65063, 57287, 55063, 10095, 50797]"
      1 "[3727264081, 65537, 3349121513, 65063, 57287, 55063, 10095, 50797]"]
    PrivateKey_load_pkcs1_der_outcomes[of Inr
      "[0, 3727264081, 65537, 3349121513, 65063, 57287, 1, 2, 3]" 1 "[]"
      3727264081 65537 3349121513 65063 57287 1 2 3 "[]" ?K] g i k
  show ?thesis by simp
qed

text \<open>
  Claim C8, as stated, is false for the decode direction: \<open>load_pkcs1\<close> does not
  call the method of the format \<open>DER\<close>, it raises \<open>NotImplementedError\<close>.
\<close>

theorem load_pkcs1_counterexample:
  "load_pkcs1 Inr Inr (1::int) ''DER''
     = Inl (NotImplementedError ''Loading PEM Files not supported by this CircuitPython library.'')
   \<and> load_pkcs1 Inr Inr (1::int) ''DER'' \<noteq> Inr 1"
  by (simp add: load_pkcs1_def)

text \<open>
  Claim C8, amended: \<open>save_pkcs1\<close> calls the PEM method for the format \<open>PEM\<close> and the
  DER method for the format \<open>DER\<close>, and for every other format it fails with a
  \<open>ValueError\<close> that names the format given and the formats \<open>DER, PEM\<close>; \<open>load_pkcs1\<close>
  raises \<open>NotImplementedError\<close> for every format.
\<close>

theorem pkcs1_format_choice:
  "save_pkcs1 pem_method der_method key ''PEM'' = pem_method key
   \<and> save_pkcs1 pem_method der_method key ''DER'' = der_method key
   \<and> (format \<noteq> ''PEM'' \<and> format \<noteq> ''DER'' \<longrightarrow>
        save_pkcs1 pem_method der_method key format
          = Inl (ValueError (UnsupportedFormat format ''DER, PEM'')))
   \<and> load_pkcs1 load_pem load_der keyfile format
        = Inl (NotImplementedError ''Loading PEM Files not supported by this CircuitPython library.'')"
  by (simp add: save_pkcs1_def assert_format_exists_def load_pkcs1_def)

text \<open>
  Claim C8 as amended, with two methods that add 1 and 2 to the key, and the format
  \<open>pem\<close> in lower case.
\<close>

theorem pkcs1_format_choice_witness:
  "save_pkcs1 (\<lambda>k. Inr (k + 1)) (\<lambda>k. Inr (k + 2)) (5::int) ''PEM'' = Inr 6
   \<and> save_pkcs1 (\<lambda>k. Inr (k + 1)) (\<lambda>k. Inr (k + 2)) (5::int) ''DER'' = Inr 7
   \<and> save_pkcs1 (\<lambda>k. Inr (k + 1)) (\<lambda>k. Inr (k + 2)) (5::int) ''pem''
       = Inl (ValueError (UnsupportedFormat ''pem'' ''DER, PEM''))
   \<and> load_pkcs1 Inr Inr (5::int) ''pem''
       = (Inl (NotImplementedError ''Loading PEM Files not supported by this CircuitPython library.'')
            :: error + int)"
  using pkcs1_format_choice[of "\<lambda>k. Inr (k + 1)" "\<lambda>k. Inr (k + 2)" "5::int" "''pem''"
      "Inr :: int \<Rightarrow> error + int" "Inr :: int \<Rightarrow> error + int" "5::int"]
  by simp

text \<open>
  Claim C9. For \<open>nbits < 16\<close>, \<open>newkeys\<close> fails with the \<open>ValueError\<close> "Key too small"
  and leaves the randomness source as it was, whatever the source is; for
  \<open>nbits \<ge> 16\<close> it never ends with that error.
\<close>

theorem newkeys_size_check:
  "(nbits < 16 \<longrightarrow>
      newkeys gp nbits accurate poolsize exponent s = Some (Inl (ValueError KeyTooSmall), s))
   \<and> (16 \<le> nbits \<longrightarrow>
        (\<forall>s'. newkeys gp nbits accurate poolsize exponent s
               \<noteq> Some (Inl (ValueError KeyTooSmall), s')))"
proof (intro conjI impI allI)
  assume "nbits < 16"
  then show "newkeys gp nbits accurate poolsize exponent s = Some (Inl (ValueError KeyTooSmall), s)"
    by (simp add: newkeys_def)
next
  fix s'
  assume big: "16 \<le> nbits"
  show "newkeys gp nbits accurate poolsize exponent s \<noteq> Some (Inl (ValueError KeyTooSmall), s')"
  proof
    assume eq: "newkeys gp nbits accurate poolsize exponent s
                  = Some (Inl (ValueError KeyTooSmall), s')"
    show False
    proof (cases "poolsize < 1")
      case True
      with big eq show False by (simp add: newkeys_def)
    next
      case False
      show False
      proof (cases "gen_keys nbits gp accurate exponent s")
        case None
        with big False eq show False by (simp add: newkeys_def)
      next
        case (Some r)
        obtain res s1 where r: "r = (res, s1)" by (cases r)
        show False
        proof (cases res)
          case (Inl err)
          from gen_keys_Some[OF Some] r Inl have "\<not> is_ValueError err" by simp
          moreover from big False eq Some r Inl have "err = ValueError KeyTooSmall"
            by (simp add: newkeys_def)
          ultimately show False by simp
        next
          case (Inr quad)
          obtain p q e d where quad: "quad = (p, q, e, d)" by (cases quad)
          from big False eq Some r Inr quad PrivateKey_init_not_too_small[of "p * q" e d p q KeyTooSmall]
          show False
            by (simp add: newkeys_def Let_def split: sum.splits)
        qed
      qed
    qed
  qed
qed

text \<open>
  Claim C9, at 15 and at 16 bits.
\<close>

theorem newkeys_size_check_witness:
  "newkeys replay 15 True 1 3 [251, 241, 239, 251] = Some (Inl (ValueError KeyTooSmall), [251, 241, 239, 251])
   \<and> newkeys replay 16 True 1 3 [251, 241, 239, 251] \<noteq> Some (Inl (ValueError KeyTooSmall), [])"
  using newkeys_size_check[of 15 replay True 1 3 "[251, 241, 239, 251]"]
    newkeys_size_check[of 16 replay True 1 3 "[251, 241, 239, 251]"]
  by simp

text \<open>
  Claim C10. For \<open>poolsize < 1\<close>, \<open>newkeys\<close> fails with a \<open>ValueError\<close> and leaves the
  randomness source as it was; two calls that differ only in a \<open>poolsize\<close> of at
  least 1 have the same outcome.
\<close>

theorem newkeys_poolsize:
  "(poolsize < 1 \<longrightarrow>
      (\<exists>v. newkeys gp nbits accurate poolsize exponent s = Some (Inl (ValueError v), s)))
   \<and> (1 \<le> poolsize \<and> 1 \<le> poolsize' \<longrightarrow>
        newkeys gp nbits accurate poolsize exponent s
          = newkeys gp nbits accurate poolsize' exponent s)"
  by (simp add: newkeys_def)

text \<open>
  Claim C10, at the pool sizes 0, 1 and 4.
\<close>

theorem newkeys_poolsize_witness:
  "(\<exists>v. newkeys replay 16 True 0 3 [251, 241, 239, 251]
           = Some (Inl (ValueError v), [251, 241, 239, 251]))
   \<and> newkeys replay 16 True 1 3 [251, 241, 239, 251]
       = newkeys replay 16 True 4 3 [251, 241, 239, 251]"
  using newkeys_poolsize[of 0 replay 16 True 3 "[251, 241, 239, 251]"]
    newkeys_poolsize[of 1 replay 16 True 3 "[251, 241, 239, 251]" 4]
  by simp

end
